theory Spec2Isabelle
  imports Complex_Main
begin

section \<open>React state cells\<close>

text \<open>
  \<^verbatim>\<open>useState(initial)\<close> owns one state cell per hook instance. On the first render
  (the mount) the cell does not exist yet and the hook sees \<open>initial\<close>; on every later
  render the argument is ignored and the stored value is seen. The cell is passed
  explicitly: \<open>None\<close> is "not mounted yet".
\<close>

definition useState :: "'s \<Rightarrow> 's option \<Rightarrow> 's" where
  "useState initial cell = (case cell of None \<Rightarrow> initial | Some s \<Rightarrow> s)"

section \<open>usePagination (src/hooks/usePagination.ts)\<close>

text \<open>
  JavaScript numbers are double-precision floats. They are modelled as \<open>int\<close>: the hook
  is fed item counts and page numbers, and every integer of magnitude up to \<open>2^53\<close> is
  a double. \<open>Math.max\<close>, \<open>Math.min\<close> and the comparisons are exact on all doubles.
  \<open>+\<close>, \<open>-\<close> and \<open>*\<close> return the double nearest to the exact result, which is the
  exact result whenever that is an integer of magnitude up to \<open>2^53\<close>; beyond, they
  round (\<open>2^53 + 1\<close> gives \<open>2^53\<close>). The quotient \<open>totalItems / itemsPerPage\<close> is
  rounded to a double before \<open>Math.ceil\<close>; for \<open>totalItems\<close> of magnitude up to
  \<open>2^53\<close> the rounded quotient has the same ceiling as the exact one, since a
  quotient that is not whole is at least \<open>1 / itemsPerPage\<close> away from the integers
  around it, more than half the spacing of the doubles there; beyond, it can come out
  one short. So the integer model is the program on the safe integers, and the
  theorems on results of this arithmetic assume their inputs there.
  With \<open>itemsPerPage = 0\<close> JavaScript yields \<open>Infinity\<close> or \<open>NaN\<close>, neither of which
  is an integer: the model returns \<open>None\<close> there.
\<close>

text \<open>\<^verbatim>\<open>Number.MAX_SAFE_INTEGER\<close> and \<^verbatim>\<open>Number.isSafeInteger\<close>, on integers.\<close>

definition MAX_SAFE_INTEGER :: int where
  "MAX_SAFE_INTEGER = 2 ^ 53 - 1"

definition isSafeInteger :: "int \<Rightarrow> bool" where
  "isSafeInteger n \<longleftrightarrow> - MAX_SAFE_INTEGER \<le> n \<and> n \<le> MAX_SAFE_INTEGER"

record UsePaginationProps =
  totalItems :: int
  itemsPerPage :: "int option"
  initialPage :: "int option"

record UsePaginationReturn =
  currentPage :: int
  totalPages :: int
  startIndex :: int
  endIndex :: int
  itemsOnCurrentPage :: int
  canNextPage :: bool
  canPrevPage :: bool

text \<open>Default parameter values of the destructured argument: \<open>itemsPerPage = 10\<close>,
  \<open>initialPage = 1\<close>.\<close>

definition itemsPerPage_arg :: "UsePaginationProps \<Rightarrow> int" where
  "itemsPerPage_arg props = (case itemsPerPage props of None \<Rightarrow> 10 | Some n \<Rightarrow> n)"

definition initialPage_arg :: "UsePaginationProps \<Rightarrow> int" where
  "initialPage_arg props = (case initialPage props of None \<Rightarrow> 1 | Some n \<Rightarrow> n)"

text \<open>\<^verbatim>\<open>Math.ceil(a / b)\<close> for integers \<open>a\<close> and \<open>b \<noteq> 0\<close>.\<close>

definition Math_ceil_quot :: "int \<Rightarrow> int \<Rightarrow> int" where
  "Math_ceil_quot a b = \<lceil>real_of_int a / real_of_int b\<rceil>"

text \<open>
  One render of the hook. The second argument is the \<open>currentPage\<close> state cell as React
  holds it before the render; the result is the returned object together with the
  cell after the render (a render never writes the cell).
\<close>

definition usePagination ::
  "UsePaginationProps \<Rightarrow> int option \<Rightarrow> (UsePaginationReturn \<times> int) option" where
  "usePagination props cell =
     (let totalItems' = totalItems props;
          itemsPerPage' = itemsPerPage_arg props;
          initialPage' = initialPage_arg props
      in if itemsPerPage' = 0 then None
         else
           let currentPage' = useState (max 1 initialPage') cell;
               totalPages' = max 1 (Math_ceil_quot totalItems' itemsPerPage');
               startIndex' = (currentPage' - 1) * itemsPerPage';
               endIndex' = min (startIndex' + itemsPerPage') totalItems';
               itemsOnCurrentPage' = endIndex' - startIndex';
               canPrevPage' = (currentPage' > 1);
               canNextPage' = (currentPage' < totalPages')
           in Some (\<lparr>currentPage = currentPage',
                      totalPages = totalPages',
                      startIndex = startIndex',
                      endIndex = endIndex',
                      itemsOnCurrentPage = itemsOnCurrentPage',
                      canNextPage = canNextPage',
                      canPrevPage = canPrevPage'\<rparr>,
                    currentPage'))"

text \<open>
  The three handlers are closures created by a render: they read \<open>totalPages\<close>,
  \<open>canNextPage\<close> and \<open>canPrevPage\<close> of that render (the record \<open>r\<close>). \<open>setPage\<close> writes
  a value into the cell; \<open>nextPage\<close> and \<open>prevPage\<close> pass React an updater
  \<^verbatim>\<open>prev => prev + 1\<close>, applied to the cell's value \<open>prev\<close> at that moment. Each returns
  the new value of the cell.
\<close>

definition setPage :: "UsePaginationReturn \<Rightarrow> int \<Rightarrow> int \<Rightarrow> int" where
  "setPage r page prev = (let validPage = max 1 (min page (totalPages r)) in validPage)"

definition nextPage :: "UsePaginationReturn \<Rightarrow> int \<Rightarrow> int" where
  "nextPage r prev = (if canNextPage r then prev + 1 else prev)"

definition prevPage :: "UsePaginationReturn \<Rightarrow> int \<Rightarrow> int" where
  "prevPage r prev = (if canPrevPage r then prev - 1 else prev)"

text \<open>
  \<^verbatim>\<open>Array.prototype.slice(start, end)\<close> on integer arguments, as the demo component uses
  it to cut the current page out of its items
  (\<^verbatim>\<open>sampleItems.slice(startIndex, endIndex)\<close>): negative indices count from the end,
  indices beyond the length are cut to it, and a range that ends before it starts is
  empty.
\<close>

definition slice :: "'a list \<Rightarrow> int \<Rightarrow> int \<Rightarrow> 'a list" where
  "slice xs start end' =
     (let len = int (length xs);
          k = (if start < 0 then max (len + start) 0 else min start len);
          final = (if end' < 0 then max (len + end') 0 else min end' len)
      in take (nat (final - k)) (drop (nat k) xs))"

section \<open>Host timers\<close>

text \<open>
  The host's timer queue, reduced to what \<open>useDebounce\<close> uses of it. Time is counted on
  a clock of whole milliseconds. A pending timer carries the handle \<open>setTimeout\<close>
  returned, the time at which it is due, and its callback; the only callback the hook
  ever schedules is \<^verbatim>\<open>() => setDebouncedValue(value)\<close>, so the callback is represented
  by the \<open>value\<close> it has captured.
\<close>

record 'a timer =
  timer_id :: nat
  due :: nat
  callback_value :: 'a

text \<open>
  The hook instance as React keeps it between renders: the \<open>debouncedValue\<close> state cell,
  the dependency array \<open>[value, delay]\<close> of the effect's last run, and the \<open>handler\<close>
  which the cleanup closure returned by that run has captured.
\<close>

record 'a hook_instance =
  debouncedValue :: 'a
  deps :: "'a \<times> int"
  handler :: nat

text \<open>
  The world: the clock, the handle counter and the pending timers of the host, and the
  mounted hook instance (\<open>None\<close> before the first render and after an unmount). Two logs
  make the history observable: \<open>fired\<close> lists every callback the host has run, as
  (time, handle, value), in the order they ran; \<open>cleared\<close> lists the handles of pending
  timers that \<open>clearTimeout\<close> has removed.
\<close>

record 'a world =
  now :: nat
  next_id :: nat
  timers :: "'a timer list"
  inst :: "'a hook_instance option"
  fired :: "(nat \<times> nat \<times> 'a) list"
  cleared :: "nat list"

definition init :: "'a world" where
  "init = \<lparr>now = 0, next_id = 1, timers = [], inst = None, fired = [], cleared = []\<rparr>"

text \<open>
  \<^verbatim>\<open>setTimeout(callback, delay)\<close> queues a timer due \<open>delay\<close> milliseconds from now (a
  negative delay counts as 0) and returns a fresh handle. It never runs the callback
  itself, not even for delay 0.
\<close>

definition setTimeout :: "'a \<Rightarrow> int \<Rightarrow> 'a world \<Rightarrow> nat \<times> 'a world" where
  "setTimeout v delay w =
     (next_id w,
      w\<lparr>timers := timers w @ [\<lparr>timer_id = next_id w, due = now w + nat delay, callback_value = v\<rparr>],
        next_id := Suc (next_id w)\<rparr>)"

text \<open>\<^verbatim>\<open>clearTimeout(handle)\<close> removes the timer with that handle if it is still pending,
  and does nothing otherwise.\<close>

definition clearTimeout :: "nat \<Rightarrow> 'a world \<Rightarrow> 'a world" where
  "clearTimeout h w =
     w\<lparr>timers := filter (\<lambda>t. timer_id t \<noteq> h) (timers w),
       cleared := cleared w @ filter (\<lambda>i. i = h) (map timer_id (timers w))\<rparr>"

text \<open>
  The host runs a due timer: the timer leaves the queue and its callback
  \<^verbatim>\<open>setDebouncedValue(value)\<close> writes the state cell of the mounted instance (React
  ignores the setter of an instance that is gone). The re-render which this state change
  causes gets the \<open>value\<close> and \<open>delay\<close> of the last render, so its dependency array is
  unchanged and it runs no effect. One instance slot is enough for this: in every
  reachable world a pending timer belongs to the instance that is mounted (the invariant
  \<open>owned\<close> below).
\<close>

definition fire :: "'a timer \<Rightarrow> 'a world \<Rightarrow> 'a world" where
  "fire t w =
     w\<lparr>timers := filter (\<lambda>u. timer_id u \<noteq> timer_id t) (timers w),
       inst := map_option (\<lambda>f. f\<lparr>debouncedValue := callback_value t\<rparr>) (inst w),
       fired := fired w @ [(due t, timer_id t, callback_value t)]\<rparr>"

text \<open>
  \<open>n\<close> milliseconds pass: the timers that fall due in the meantime run, in the order
  in which they fall due (timers due at the same time in the order scheduled), each at
  the time it is due.
\<close>

definition due_timers :: "nat \<Rightarrow> 'a world \<Rightarrow> 'a timer list" where
  "due_timers n w = sort_key due (filter (\<lambda>t. due t \<le> now w + n) (timers w))"

definition advance :: "nat \<Rightarrow> 'a world \<Rightarrow> 'a world" where
  "advance n w = (fold fire (due_timers n w) w)\<lparr>now := now w + n\<rparr>"

section \<open>useDebounce (src/hooks/useDebounce.ts)\<close>

text \<open>Default parameter value: \<open>delay = 500\<close>.\<close>

definition delay_arg :: "int option \<Rightarrow> int" where
  "delay_arg delay = (case delay of None \<Rightarrow> 500 | Some n \<Rightarrow> n)"

text \<open>
  The body of the effect, \<^verbatim>\<open>const handler = setTimeout(() => { setDebouncedValue(value) },
  delay)\<close>, returning the handle which its cleanup closure keeps; and that cleanup,
  \<^verbatim>\<open>clearTimeout(handler)\<close>.
\<close>

definition effect :: "'a \<Rightarrow> int \<Rightarrow> 'a world \<Rightarrow> nat \<times> 'a world" where
  "effect v delay w = setTimeout v delay w"

definition cleanup :: "nat \<Rightarrow> 'a world \<Rightarrow> 'a world" where
  "cleanup h w = clearTimeout h w"

text \<open>
  One call of the hook together with the effect phase of that render, returning the
  hook's result and the world after it.
  \<^item> First render (no instance): \<^verbatim>\<open>useState(value)\<close> creates the cell holding \<open>value\<close>,
    the hook returns it, and the effect runs.
  \<^item> Later render: \<^verbatim>\<open>useState\<close> ignores its argument and the hook returns the cell.
    \<^verbatim>\<open>useEffect(..., [value, delay])\<close> compares the dependency array with that of the
    effect's last run; when either entry differs, the cleanup of the last run is
    called first and then the effect runs again. When both are the same, nothing runs.
  Values are compared by HOL equality, which is what React's comparison is on strings,
  booleans and finite numbers.
\<close>

definition useDebounce :: "'a \<Rightarrow> int option \<Rightarrow> 'a world \<Rightarrow> 'a \<times> 'a world" where
  "useDebounce v delay w =
     (let delay' = delay_arg delay;
          debouncedValue' = useState v (map_option debouncedValue (inst w));
          w' = (case inst w of
                  None \<Rightarrow>
                    let (h, w1) = effect v delay' w
                    in w1\<lparr>inst := Some \<lparr>debouncedValue = debouncedValue',
                                         deps = (v, delay'), handler = h\<rparr>\<rparr>
                | Some f \<Rightarrow>
                    if deps f = (v, delay') then w
                    else
                      let w1 = cleanup (handler f) w;
                          (h, w2) = effect v delay' w1
                      in w2\<lparr>inst := Some (f\<lparr>deps := (v, delay'), handler := h\<rparr>)\<rparr>)
      in (debouncedValue', w'))"

text \<open>Unmounting the component calls the cleanup of the effect's last run and discards
  the instance.\<close>

definition unmount :: "'a world \<Rightarrow> 'a world" where
  "unmount w =
     (case inst w of
        None \<Rightarrow> w
      | Some f \<Rightarrow> (cleanup (handler f) w)\<lparr>inst := None\<rparr>)"

text \<open>
  What can happen to a component that uses the hook: it is rendered with some \<open>value\<close>
  and \<open>delay\<close>, time passes, or it is unmounted. A render after an unmount mounts a new
  instance.
\<close>

datatype 'a event = Render 'a "int option" | Advance nat | Unmount

fun step :: "'a event \<Rightarrow> 'a world \<Rightarrow> 'a world" where
  "step (Render v delay) w = snd (useDebounce v delay w)"
| "step (Advance n) w = advance n w"
| "step Unmount w = unmount w"

definition run :: "'a event list \<Rightarrow> 'a world \<Rightarrow> 'a world" where
  "run evs w = fold step evs w"

text \<open>
  A burst of changes after a first one: each entry \<open>(gap, v)\<close> lets \<open>gap\<close> milliseconds
  pass and then renders the hook with the new value \<open>v\<close> and the same \<open>delay\<close>.
\<close>

fun burst :: "int option \<Rightarrow> (nat \<times> 'a) list \<Rightarrow> 'a event list" where
  "burst delay [] = []"
| "burst delay ((gap, v) # cs) = Advance gap # Render v delay # burst delay cs"

section \<open>Runs and invariants of the debouncer\<close>

text \<open>Every world a run passes through, from the first to the last.\<close>

fun trace :: "'a event list \<Rightarrow> 'a world \<Rightarrow> 'a world list" where
  "trace [] w = [w]"
| "trace (e # es) w = w # trace es (step e w)"

text \<open>What the hook returns when rendered now: the state cell of the mounted instance.\<close>

definition current :: "'a world \<Rightarrow> 'a option" where
  "current w = map_option debouncedValue (inst w)"

text \<open>
  The state right after an effect has run for value \<open>v\<close>: exactly one timer is pending,
  due one delay from now, and it belongs to the mounted instance, whose state cell holds
  \<open>dv\<close>.
\<close>

definition armed :: "'a \<Rightarrow> int \<Rightarrow> 'a \<Rightarrow> 'a world \<Rightarrow> bool" where
  "armed v delay dv w \<longleftrightarrow>
     (case inst w of
        None \<Rightarrow> False
      | Some f \<Rightarrow>
          timers w = [\<lparr>timer_id = handler f, due = now w + nat delay, callback_value = v\<rparr>]
          \<and> deps f = (v, delay) \<and> debouncedValue f = dv)"

text \<open>The handles of the callbacks that have run, and of the timers still pending.\<close>

definition fired_ids :: "'a world \<Rightarrow> nat set" where
  "fired_ids w = set (map (\<lambda>e. fst (snd e)) (fired w))"

definition pending_ids :: "'a world \<Rightarrow> nat set" where
  "pending_ids w = set (map timer_id (timers w))"

text \<open>
  Invariants of the worlds reachable from \<open>init\<close>. \<open>owned\<close>: the only timer that can be
  pending is the one whose handle the mounted instance holds, carrying the value of the
  last effect run. \<open>ids_ok\<close>: handles are fresh when issued, and a handle is in at most
  one of three places: pending, cleared while pending, or run.
\<close>

definition owned :: "'a world \<Rightarrow> bool" where
  "owned w \<longleftrightarrow>
     (case timers w of
        [] \<Rightarrow> True
      | t # ts \<Rightarrow>
          ts = [] \<and>
          (case inst w of
             None \<Rightarrow> False
           | Some f \<Rightarrow> timer_id t = handler f \<and> callback_value t = fst (deps f)))"

definition ids_ok :: "'a world \<Rightarrow> bool" where
  "ids_ok w \<longleftrightarrow>
     (\<forall>i \<in> pending_ids w \<union> set (cleared w) \<union> fired_ids w. i < next_id w)
     \<and> pending_ids w \<inter> set (cleared w) = {}
     \<and> pending_ids w \<inter> fired_ids w = {}
     \<and> set (cleared w) \<inter> fired_ids w = {}"

definition world_ok :: "'a world \<Rightarrow> bool" where
  "world_ok w \<longleftrightarrow> owned w \<and> ids_ok w"

section \<open>Arithmetic of the page count\<close>

lemma Math_ceil_quot_div: "Math_ceil_quot a b = - (- a div b)"
  unfolding Math_ceil_quot_def by (rule ceiling_divide_eq_div)

lemma Math_ceil_quot_zero [simp]: "Math_ceil_quot 0 b = 0"
  by (simp add: Math_ceil_quot_def)

lemma Math_ceil_quot_upper:
  assumes "0 < b"
  shows "a \<le> Math_ceil_quot a b * b"
proof -
  have "real_of_int a / real_of_int b \<le> real_of_int (Math_ceil_quot a b)"
    unfolding Math_ceil_quot_def by (rule le_of_int_ceiling)
  with assms have "real_of_int a \<le> real_of_int (Math_ceil_quot a b) * real_of_int b"
    by (simp add: pos_divide_le_eq)
  then have "real_of_int a \<le> real_of_int (Math_ceil_quot a b * b)"
    by simp
  then show ?thesis
    by (simp only: of_int_le_iff)
qed

lemma Math_ceil_quot_lower:
  assumes "0 < b"
  shows "(Math_ceil_quot a b - 1) * b < a"
proof -
  have "real_of_int (Math_ceil_quot a b) - 1 < real_of_int a / real_of_int b"
    unfolding Math_ceil_quot_def using ceiling_correct [of "real_of_int a / real_of_int b"]
    by linarith
  with assms have "(real_of_int (Math_ceil_quot a b) - 1) * real_of_int b < real_of_int a"
    by (simp add: pos_less_divide_eq)
  then have "real_of_int ((Math_ceil_quot a b - 1) * b) < real_of_int a"
    by simp
  then show ?thesis
    by (simp only: of_int_less_iff)
qed

lemma usePagination_Some:
  assumes "itemsPerPage_arg props \<noteq> 0"
  shows "usePagination props cell =
     Some (\<lparr>currentPage = useState (max 1 (initialPage_arg props)) cell,
             totalPages = max 1 (Math_ceil_quot (totalItems props) (itemsPerPage_arg props)),
             startIndex = (useState (max 1 (initialPage_arg props)) cell - 1) * itemsPerPage_arg props,
             endIndex = min ((useState (max 1 (initialPage_arg props)) cell - 1) * itemsPerPage_arg props
                               + itemsPerPage_arg props) (totalItems props),
             itemsOnCurrentPage =
               min ((useState (max 1 (initialPage_arg props)) cell - 1) * itemsPerPage_arg props
                      + itemsPerPage_arg props) (totalItems props)
               - (useState (max 1 (initialPage_arg props)) cell - 1) * itemsPerPage_arg props,
             canNextPage = (useState (max 1 (initialPage_arg props)) cell
                              < max 1 (Math_ceil_quot (totalItems props) (itemsPerPage_arg props))),
             canPrevPage = (useState (max 1 (initialPage_arg props)) cell > 1)\<rparr>,
           useState (max 1 (initialPage_arg props)) cell)"
  using assms by (simp add: usePagination_def Let_def)

lemma usePagination_rerender:
  assumes "itemsPerPage_arg props \<noteq> 0"
  shows "\<exists>r. usePagination props (Some cp) = Some (r, cp) \<and> currentPage r = cp"
  using usePagination_Some [OF assms, of "Some cp"] by (simp add: useState_def)

lemma start_le_total:
  assumes ti: "0 \<le> ti" and ipp: "0 < ipp"
    and cp: "1 \<le> cp" "cp \<le> max 1 (Math_ceil_quot ti ipp)"
  shows "(cp - 1) * ipp \<le> ti"
proof (cases "Math_ceil_quot ti ipp \<le> 1")
  case True
  with cp have "cp = 1" by simp
  with ti show ?thesis by simp
next
  case False
  with cp have "cp - 1 \<le> Math_ceil_quot ti ipp - 1" by simp
  with ipp have "(cp - 1) * ipp \<le> (Math_ceil_quot ti ipp - 1) * ipp"
    by (intro mult_right_mono) simp_all
  also have "\<dots> < ti" by (rule Math_ceil_quot_lower [OF ipp])
  finally show ?thesis by simp
qed

lemma start_ge_total:
  assumes ipp: "0 < ipp" and cp: "max 1 (Math_ceil_quot ti ipp) < cp"
  shows "ti \<le> (cp - 1) * ipp"
proof -
  have "ti \<le> Math_ceil_quot ti ipp * ipp" by (rule Math_ceil_quot_upper [OF ipp])
  also have "\<dots> \<le> (cp - 1) * ipp"
    using ipp cp by (intro mult_right_mono) simp_all
  finally show ?thesis .
qed

lemma usePagination_fields:
  assumes "itemsPerPage_arg props \<noteq> 0"
  obtains r where
    "usePagination props cell = Some (r, useState (max 1 (initialPage_arg props)) cell)"
    "currentPage r = useState (max 1 (initialPage_arg props)) cell"
    "totalPages r = max 1 (Math_ceil_quot (totalItems props) (itemsPerPage_arg props))"
    "startIndex r = (currentPage r - 1) * itemsPerPage_arg props"
    "endIndex r = min (startIndex r + itemsPerPage_arg props) (totalItems props)"
    "itemsOnCurrentPage r = endIndex r - startIndex r"
    "canNextPage r = (currentPage r < totalPages r)"
    "canPrevPage r = (1 < currentPage r)"
proof -
  let ?cp = "useState (max 1 (initialPage_arg props)) cell"
  let ?r = "\<lparr>currentPage = ?cp,
             totalPages = max 1 (Math_ceil_quot (totalItems props) (itemsPerPage_arg props)),
             startIndex = (?cp - 1) * itemsPerPage_arg props,
             endIndex = min ((?cp - 1) * itemsPerPage_arg props
                               + itemsPerPage_arg props) (totalItems props),
             itemsOnCurrentPage =
               min ((?cp - 1) * itemsPerPage_arg props
                      + itemsPerPage_arg props) (totalItems props)
               - (?cp - 1) * itemsPerPage_arg props,
             canNextPage = (?cp
                              < max 1 (Math_ceil_quot (totalItems props) (itemsPerPage_arg props))),
             canPrevPage = (?cp > 1)\<rparr>"
  have "usePagination props cell = Some (?r, ?cp)"
    by (rule usePagination_Some [OF assms])
  then show thesis
    by (rule that) simp_all
qed

lemma useState_Some [simp]: "useState initial (Some s) = s"
  by (simp add: useState_def)

lemma useState_None [simp]: "useState initial None = initial"
  by (simp add: useState_def)

lemma slice_beyond_end:
  assumes "int (length xs) \<le> start" and "end' = int (length xs)"
  shows "slice xs start end' = []"
  using assms by (simp add: slice_def Let_def)

lemma totalPages_le_totalItems:
  assumes "0 < b" and "a \<le> m" and "1 \<le> m"
  shows "max 1 (Math_ceil_quot a b) \<le> m"
proof -
  have "(Math_ceil_quot a b - 1) * b < a"
    by (rule Math_ceil_quot_lower [OF assms(1)])
  also have "a \<le> m * b"
  proof -
    from assms(1,3) have "m * 1 \<le> m * b" by (intro mult_left_mono) simp_all
    with assms(2) show ?thesis by simp
  qed
  finally have "Math_ceil_quot a b - 1 < m"
    using assms(1) by (simp add: mult_less_cancel_right)
  with assms(3) show ?thesis by simp
qed

lemma isSafeInteger_numeral [simp]:
  "isSafeInteger 0" "isSafeInteger 1"
  by (simp_all add: isSafeInteger_def MAX_SAFE_INTEGER_def)

lemma isSafeInteger_between:
  assumes "1 \<le> x" and "x \<le> max 1 m" and "isSafeInteger m"
  shows "isSafeInteger x"
  using assms by (auto simp: isSafeInteger_def MAX_SAFE_INTEGER_def max_def split: if_splits)

section \<open>Steps of the debouncer\<close>

lemma owned_iff:
  "owned w \<longleftrightarrow>
     timers w = [] \<or>
     (\<exists>f t. inst w = Some f \<and> timers w = [t] \<and> timer_id t = handler f
        \<and> callback_value t = fst (deps f))"
  by (auto simp: owned_def split: list.splits option.splits)

lemma armed_iff:
  "armed v delay dv w \<longleftrightarrow>
     (\<exists>h f. timers w = [\<lparr>timer_id = h, due = now w + nat delay, callback_value = v\<rparr>]
        \<and> inst w = Some f \<and> deps f = (v, delay) \<and> handler f = h \<and> debouncedValue f = dv)"
  by (auto simp: armed_def split: option.splits)

lemma run_Nil [simp]: "run [] w = w"
  by (simp add: run_def)

lemma run_Cons [simp]: "run (e # es) w = run es (step e w)"
  by (simp add: run_def)

lemma run_append [simp]: "run (es @ es') w = run es' (run es w)"
  by (simp add: run_def)

lemma world_ok_init: "world_ok init"
  by (simp add: world_ok_def owned_iff ids_ok_def init_def pending_ids_def fired_ids_def)

lemma owned_cases:
  assumes "owned w"
  obtains (idle) "timers w = []"
  | (pending) f t where "inst w = Some f" "timers w = [t]" "timer_id t = handler f"
      "callback_value t = fst (deps f)"
  using assms by (auto simp: owned_iff)

lemma due_timers_Nil: "timers w = [] \<Longrightarrow> due_timers n w = []"
  by (simp add: due_timers_def)

lemma due_timers_single:
  "timers w = [t] \<Longrightarrow> due_timers n w = (if due t \<le> now w + n then [t] else [])"
  by (simp add: due_timers_def)

lemma advance_idle:
  "timers w = [] \<Longrightarrow> advance n w = w\<lparr>now := now w + n\<rparr>"
  by (simp add: advance_def due_timers_Nil)

lemma advance_early:
  "timers w = [t] \<Longrightarrow> now w + n < due t \<Longrightarrow> advance n w = w\<lparr>now := now w + n\<rparr>"
  by (simp add: advance_def due_timers_single)

lemma advance_fires:
  "timers w = [t] \<Longrightarrow> due t \<le> now w + n \<Longrightarrow>
     advance n w = (fire t w)\<lparr>now := now w + n\<rparr>"
  by (simp add: advance_def due_timers_single)

lemma world_ok_advance:
  assumes "world_ok w"
  shows "world_ok (advance n w)"
proof -
  from assms have "owned w" by (simp add: world_ok_def)
  then show ?thesis
  proof (cases rule: owned_cases)
    case idle
    with assms show ?thesis
      by (simp add: advance_idle world_ok_def owned_iff ids_ok_def pending_ids_def fired_ids_def)
  next
    case (pending f t)
    show ?thesis
    proof (cases "due t \<le> now w + n")
      case True
      with pending assms show ?thesis
        by (auto simp: advance_fires fire_def world_ok_def owned_iff ids_ok_def pending_ids_def fired_ids_def)
    next
      case False
      with pending assms show ?thesis
        by (simp add: advance_early world_ok_def owned_iff ids_ok_def pending_ids_def fired_ids_def)
    qed
  qed
qed

lemma world_ok_unmount:
  assumes "world_ok w"
  shows "world_ok (unmount w)"
proof -
  from assms have "owned w" by (simp add: world_ok_def)
  then show ?thesis
  proof (cases rule: owned_cases)
    case idle
    with assms show ?thesis
      by (auto simp: unmount_def cleanup_def clearTimeout_def world_ok_def owned_iff ids_ok_def
          pending_ids_def fired_ids_def split: option.splits)
  next
    case (pending f t)
    with assms show ?thesis
      by (auto simp: unmount_def cleanup_def clearTimeout_def world_ok_def owned_iff ids_ok_def
          pending_ids_def fired_ids_def)
  qed
qed


lemma useDebounce_mount:
  assumes "inst w = None"
  shows "useDebounce v d w =
    (v, w\<lparr>timers := timers w @ [\<lparr>timer_id = next_id w, due = now w + nat (delay_arg d),
                                  callback_value = v\<rparr>],
          next_id := Suc (next_id w),
          inst := Some \<lparr>debouncedValue = v, deps = (v, delay_arg d), handler = next_id w\<rparr>\<rparr>)"
  using assms by (simp add: useDebounce_def effect_def setTimeout_def Let_def)

lemma useDebounce_same:
  assumes "inst w = Some f" and "deps f = (v, delay_arg d)"
  shows "useDebounce v d w = (debouncedValue f, w)"
  using assms by (simp add: useDebounce_def Let_def)

lemma useDebounce_change:
  assumes "inst w = Some f" and "deps f \<noteq> (v, delay_arg d)"
  shows "useDebounce v d w =
    (debouncedValue f,
     w\<lparr>timers := filter (\<lambda>t. timer_id t \<noteq> handler f) (timers w)
                   @ [\<lparr>timer_id = next_id w, due = now w + nat (delay_arg d), callback_value = v\<rparr>],
       cleared := cleared w @ filter (\<lambda>i. i = handler f) (map timer_id (timers w)),
       next_id := Suc (next_id w),
       inst := Some (f\<lparr>deps := (v, delay_arg d), handler := next_id w\<rparr>)\<rparr>)"
  using assms by (simp add: useDebounce_def effect_def cleanup_def setTimeout_def clearTimeout_def Let_def)

lemma world_ok_render:
  assumes "world_ok w"
  shows "world_ok (step (Render v d) w)"
proof (cases "inst w")
  case None
  with assms have "timers w = []" by (auto simp: world_ok_def owned_iff)
  with None assms show ?thesis
    by (auto simp: useDebounce_mount world_ok_def owned_iff ids_ok_def pending_ids_def fired_ids_def
        less_Suc_eq)
next
  case (Some f)
  show ?thesis
  proof (cases "deps f = (v, delay_arg d)")
    case True
    with Some assms show ?thesis by (simp add: useDebounce_same)
  next
    case False
    from assms have "owned w" by (simp add: world_ok_def)
    then show ?thesis
    proof (cases rule: owned_cases)
      case idle
      with Some False assms show ?thesis
        by (auto simp: useDebounce_change world_ok_def owned_iff ids_ok_def pending_ids_def fired_ids_def
            less_Suc_eq)
    next
      case (pending f' t)
      with Some False assms show ?thesis
        by (auto simp: useDebounce_change world_ok_def owned_iff ids_ok_def pending_ids_def fired_ids_def
            less_Suc_eq)
    qed
  qed
qed

lemma world_ok_step: "world_ok w \<Longrightarrow> world_ok (step e w)"
  by (cases e) (simp_all add: world_ok_render world_ok_advance world_ok_unmount del: step.simps(1))

lemma world_ok_run: "world_ok w \<Longrightarrow> world_ok (run evs w)"
  by (induction evs arbitrary: w) (simp_all add: world_ok_step)

lemma world_ok_reachable: "world_ok (run evs init)"
  by (rule world_ok_run [OF world_ok_init])


lemma trace_nonempty [simp]: "trace evs w \<noteq> []"
  by (cases evs) simp_all

lemma trace_last: "last (trace evs w) = run evs w"
  by (induction evs arbitrary: w) simp_all

lemma trace_start: "w \<in> set (trace evs w)"
  by (cases evs) simp_all

lemma trace_end: "run evs w \<in> set (trace evs w)"
  using last_in_set [OF trace_nonempty, of evs w] by (simp only: trace_last)

lemma trace_append:
  "set (trace (es @ es') w) = set (trace es w) \<union> set (trace es' (run es w))"
proof (induction es arbitrary: w)
  case Nil
  show ?case using trace_start [of w es'] by auto
next
  case (Cons e es)
  then show ?case by simp
qed

lemma trace_Advance:
  "w' \<in> set (trace (map Advance (n # ns)) w) \<longleftrightarrow>
     w' = w \<or> w' \<in> set (trace (map Advance ns) (advance n w))"
  by simp

lemma idle_wait:
  assumes "timers w = []" and "w' \<in> set (trace (map Advance ns) w)"
  shows "fired w' = fired w \<and> inst w' = inst w \<and> timers w' = [] \<and> now w \<le> now w'"
  using assms
proof (induction ns arbitrary: w)
  case Nil
  then show ?case by simp
next
  case (Cons n ns)
  let ?w1 = "w\<lparr>now := now w + n\<rparr>"
  from Cons.prems(1) have adv: "advance n w = ?w1" by (rule advance_idle)
  from Cons.prems(2) have "w' = w \<or> w' \<in> set (trace (map Advance ns) ?w1)"
    by (simp only: trace_Advance adv)
  then show ?case
  proof
    assume "w' = w"
    with Cons.prems(1) show ?thesis by simp
  next
    assume in1: "w' \<in> set (trace (map Advance ns) ?w1)"
    have "timers ?w1 = []" using Cons.prems(1) by simp
    from Cons.IH [OF this in1] show ?thesis by simp
  qed
qed

lemma fire_single:
  assumes "timers w = [t]"
  shows "timers (fire t w) = []"
    and "fired (fire t w) = fired w @ [(due t, timer_id t, callback_value t)]"
    and "inst (fire t w) = map_option (\<lambda>f. f\<lparr>debouncedValue := callback_value t\<rparr>) (inst w)"
    and "now (fire t w) = now w"
  using assms by (simp_all add: fire_def)

lemma armed_wait_trace:
  assumes "timers w = [t]" and "w' \<in> set (trace (map Advance ns) w)"
  shows "(fired w' = fired w \<and> inst w' = inst w)
         \<or> (fired w' = fired w @ [(due t, timer_id t, callback_value t)]
            \<and> inst w' = map_option (\<lambda>f. f\<lparr>debouncedValue := callback_value t\<rparr>) (inst w)
            \<and> due t \<le> now w')"
  using assms
proof (induction ns arbitrary: w)
  case Nil
  then show ?case by simp
next
  case (Cons n ns)
  from Cons.prems(2) have "w' = w \<or> w' \<in> set (trace (map Advance ns) (advance n w))"
    by (simp only: trace_Advance)
  then show ?case
  proof
    assume "w' = w"
    then show ?thesis by simp
  next
    assume in1: "w' \<in> set (trace (map Advance ns) (advance n w))"
    show ?thesis
    proof (cases "due t \<le> now w + n")
      case True
      let ?w1 = "(fire t w)\<lparr>now := now w + n\<rparr>"
      from Cons.prems(1) True have adv: "advance n w = ?w1" by (rule advance_fires)
      have idle: "timers ?w1 = []"
        by (simp add: fire_single(1) [OF Cons.prems(1)])
      from in1 have "w' \<in> set (trace (map Advance ns) ?w1)" by (simp only: adv)
      from idle_wait [OF idle this]
      have "fired w' = fired ?w1" "inst w' = inst ?w1" "now ?w1 \<le> now w'" by simp_all
      with True have "fired w' = fired w @ [(due t, timer_id t, callback_value t)]"
        "inst w' = map_option (\<lambda>f. f\<lparr>debouncedValue := callback_value t\<rparr>) (inst w)"
        "due t \<le> now w'"
        by (simp_all add: fire_single [OF Cons.prems(1)])
      then show ?thesis by blast
    next
      case False
      let ?w1 = "w\<lparr>now := now w + n\<rparr>"
      have adv: "advance n w = ?w1"
        by (rule advance_early [OF Cons.prems(1)]) (use False in simp)
      from in1 have in2: "w' \<in> set (trace (map Advance ns) ?w1)" by (simp only: adv)
      have "timers ?w1 = [t]" using Cons.prems(1) by simp
      from Cons.IH [OF this in2] show ?thesis by simp
    qed
  qed
qed

lemma armed_wait_run:
  assumes "timers w = [t]"
  shows "fired (run (map Advance ns) w) =
           fired w @ (if ns \<noteq> [] \<and> due t \<le> now w + sum_list ns
                      then [(due t, timer_id t, callback_value t)] else [])"
  using assms
proof (induction ns arbitrary: w)
  case Nil
  then show ?case by simp
next
  case (Cons n ns)
  show ?case
  proof (cases "due t \<le> now w + n")
    case True
    let ?w1 = "(fire t w)\<lparr>now := now w + n\<rparr>"
    from Cons.prems True have adv: "advance n w = ?w1" by (rule advance_fires)
    have idle: "timers ?w1 = []"
      by (simp add: fire_single(1) [OF Cons.prems])
    from idle_wait [OF idle trace_end]
    have "fired (run (map Advance ns) ?w1) = fired ?w1" by simp
    then have "fired (run (map Advance (n # ns)) w)
        = fired w @ [(due t, timer_id t, callback_value t)]"
      by (simp add: adv fire_single(2) [OF Cons.prems])
    with True show ?thesis by simp
  next
    case False
    let ?w1 = "w\<lparr>now := now w + n\<rparr>"
    have adv: "advance n w = ?w1"
      by (rule advance_early [OF Cons.prems]) (use False in simp)
    have "timers ?w1 = [t]" using Cons.prems by simp
    from Cons.IH [OF this] have "fired (run (map Advance ns) ?w1) =
        fired w @ (if ns \<noteq> [] \<and> due t \<le> now w + n + sum_list ns
                      then [(due t, timer_id t, callback_value t)] else [])"
      by simp
    with False show ?thesis
      by (cases "ns = []") (simp_all add: adv add.assoc)
  qed
qed


lemma armed_current: "armed v delay dv w \<Longrightarrow> current w = Some dv"
  by (auto simp: armed_iff current_def)

lemma armed_first_render:
  assumes "world_ok w" and "\<forall>f. inst w = Some f \<longrightarrow> deps f \<noteq> (v, delay_arg d)"
  shows "armed v (delay_arg d) (fst (useDebounce v d w)) (step (Render v d) w)"
    and "fired (step (Render v d) w) = fired w"
    and "now (step (Render v d) w) = now w"
proof -
  from assms(1) have own: "owned w" by (simp add: world_ok_def)
  have "armed v (delay_arg d) (fst (useDebounce v d w)) (step (Render v d) w)
      \<and> fired (step (Render v d) w) = fired w \<and> now (step (Render v d) w) = now w"
  proof (cases "inst w")
    case None
    with own have "timers w = []" by (auto simp: owned_iff)
    with None show ?thesis
      by (simp add: useDebounce_mount armed_iff)
  next
    case (Some f)
    with assms(2) have ch: "deps f \<noteq> (v, delay_arg d)" by simp
    from own Some have "filter (\<lambda>t. timer_id t \<noteq> handler f) (timers w) = []"
      by (auto simp: owned_iff)
    with Some ch show ?thesis
      by (simp add: useDebounce_change [OF Some ch] armed_iff)
  qed
  then show "armed v (delay_arg d) (fst (useDebounce v d w)) (step (Render v d) w)"
    and "fired (step (Render v d) w) = fired w"
    and "now (step (Render v d) w) = now w"
    by simp_all
qed

lemma armed_gap:
  assumes "armed v delay dv w" and "g < nat delay"
  shows "advance g w = w\<lparr>now := now w + g\<rparr>"
proof -
  from assms(1) obtain t where t: "timers w = [t]" and d: "due t = now w + nat delay"
    by (auto simp: armed_iff)
  show ?thesis
    by (rule advance_early [OF t]) (use d assms(2) in simp)
qed

lemma armed_change:
  assumes "armed v delay dv w" and "g < nat delay" and "v' \<noteq> v" and "delay_arg d = delay"
  shows "armed v' delay dv (step (Render v' d) (step (Advance g) w))"
    and "fired (step (Render v' d) (step (Advance g) w)) = fired w"
    and "now (step (Render v' d) (step (Advance g) w)) = now w + g"
proof -
  let ?w1 = "w\<lparr>now := now w + g\<rparr>"
  have adv: "step (Advance g) w = ?w1"
    using armed_gap [OF assms(1,2)] by simp
  from assms(1) obtain h f where t: "timers w = [\<lparr>timer_id = h, due = now w + nat delay, callback_value = v\<rparr>]"
    and f: "inst w = Some f" and df: "deps f = (v, delay)" and hf: "handler f = h"
    and dv: "debouncedValue f = dv"
    by (auto simp: armed_iff)
  from f have f1: "inst ?w1 = Some f" by simp
  from df assms(3,4) have ch: "deps f \<noteq> (v', delay_arg d)" by simp
  have "armed v' delay dv (step (Render v' d) ?w1)
      \<and> fired (step (Render v' d) ?w1) = fired w \<and> now (step (Render v' d) ?w1) = now w + g"
    using t hf dv assms(4) by (simp add: useDebounce_change [OF f1 ch] armed_iff)
  then show "armed v' delay dv (step (Render v' d) (step (Advance g) w))"
    and "fired (step (Render v' d) (step (Advance g) w)) = fired w"
    and "now (step (Render v' d) (step (Advance g) w)) = now w + g"
    by (simp_all only: adv)
qed

lemma armed_burst:
  assumes "armed v delay dv w" and "delay_arg d = delay"
    and "\<forall>c \<in> set cs. fst c < nat delay" and "distinct_adj (v # map snd cs)"
  shows "armed (last (v # map snd cs)) delay dv (run (burst d cs) w)
       \<and> fired (run (burst d cs) w) = fired w
       \<and> now (run (burst d cs) w) = now w + sum_list (map fst cs)
       \<and> (\<forall>w' \<in> set (trace (burst d cs) w). fired w' = fired w \<and> current w' = Some dv)"
  using assms
proof (induction cs arbitrary: v w)
  case Nil
  then show ?case by (simp add: armed_current)
next
  case (Cons c cs)
  obtain g v' where c: "c = (g, v')" by (cases c)
  let ?w1 = "step (Advance g) w"
  let ?w2 = "step (Render v' d) ?w1"
  from Cons.prems(3) c have g: "g < nat delay" by simp
  from Cons.prems(4) c have ne: "v' \<noteq> v" and rest: "distinct_adj (v' # map snd cs)"
    by auto
  from Cons.prems(3) have gaps: "\<forall>c \<in> set cs. fst c < nat delay" by simp
  note ch = armed_change [OF Cons.prems(1) g ne Cons.prems(2)]
  from Cons.IH [OF ch(1) Cons.prems(2) gaps rest]
  have ih: "armed (last (v' # map snd cs)) delay dv (run (burst d cs) ?w2)"
    "fired (run (burst d cs) ?w2) = fired ?w2"
    "now (run (burst d cs) ?w2) = now ?w2 + sum_list (map fst cs)"
    "\<forall>w' \<in> set (trace (burst d cs) ?w2). fired w' = fired ?w2 \<and> current w' = Some dv"
    by simp_all
  have w1: "advance g w = w\<lparr>now := now w + g\<rparr>"
    by (rule armed_gap [OF Cons.prems(1) g])
  have q1: "fired ?w1 = fired w \<and> current ?w1 = Some dv"
    using armed_current [OF Cons.prems(1)] by (simp add: w1 current_def)
  have q0: "fired w = fired w \<and> current w = Some dv"
    using armed_current [OF Cons.prems(1)] by simp
  have a: "armed (last (v # map snd (c # cs))) delay dv (run (burst d (c # cs)) w)"
    using ih(1) by (simp add: c)
  have b: "fired (run (burst d (c # cs)) w) = fired w"
    using ih(2) ch(2) by (simp add: c)
  have n: "now (run (burst d (c # cs)) w) = now w + sum_list (map fst (c # cs))"
    using ih(3) ch(3) by (simp add: c)
  have t: "\<forall>w' \<in> set (trace (burst d (c # cs)) w). fired w' = fired w \<and> current w' = Some dv"
    using ih(4) ch(2) q0 q1 by (simp add: c)
  from a b n t show ?case by blast
qed

lemma cleared_fold_fire: "cleared (fold fire ts w) = cleared w"
  by (induction ts arbitrary: w) (simp_all add: fire_def)

lemma cleared_step: "set (cleared w) \<subseteq> set (cleared (step e w))"
proof (cases e)
  case (Render v d)
  show ?thesis
  proof (cases "inst w")
    case None
    then show ?thesis by (simp add: Render useDebounce_mount)
  next
    case (Some f)
    then show ?thesis
      by (cases "deps f = (v, delay_arg d)")
        (simp_all add: Render useDebounce_same useDebounce_change)
  qed
next
  case (Advance n)
  then show ?thesis by (simp add: advance_def cleared_fold_fire)
next
  case Unmount
  then show ?thesis
    by (simp add: unmount_def cleanup_def clearTimeout_def split: option.splits)
qed

lemma cleared_run: "set (cleared w) \<subseteq> set (cleared (run evs w))"
proof (induction evs arbitrary: w)
  case Nil
  show ?case by simp
next
  case (Cons e evs)
  from cleared_step [of w e] Cons [of "step e w"] show ?case
    by (auto simp del: step.simps)
qed

lemma unmount_owned:
  assumes "owned w"
  shows "timers (unmount w) = []" and "inst (unmount w) = None" and "fired (unmount w) = fired w"
    and "pending_ids w \<subseteq> set (cleared (unmount w))"
  using assms
  by (auto simp: owned_iff unmount_def cleanup_def clearTimeout_def pending_ids_def
      split: option.splits)

section \<open>The page count\<close>

text \<open>
  Claim C3. For every \<open>totalItems \<ge> 0\<close> and \<open>itemsPerPage \<ge> 1\<close> (given explicitly or
  by the default 10), both safe integers, a render of \<open>usePagination\<close> returns
  \<open>totalPages = max(1, ceil(totalItems / itemsPerPage))\<close>, whatever the initial page
  and the state cell are; and \<open>totalPages = 1\<close> when \<open>totalItems = 0\<close>. The ceiling is
  the mathematical one: \<open>totalPages\<close> is also the least \<open>n \<ge> 1\<close> whose \<open>n\<close> pages of
  \<open>itemsPerPage\<close> items hold all \<open>totalItems\<close> items, and it is a safe integer again.
\<close>

theorem totalPages_spec:
  assumes "0 \<le> totalItems props" and "isSafeInteger (totalItems props)"
    and "1 \<le> itemsPerPage_arg props" and "isSafeInteger (itemsPerPage_arg props)"
  shows "\<exists>r st. usePagination props cell = Some (r, st)
           \<and> totalPages r
               = max 1 \<lceil>real_of_int (totalItems props) / real_of_int (itemsPerPage_arg props)\<rceil>
           \<and> (totalItems props = 0 \<longrightarrow> totalPages r = 1)
           \<and> 1 \<le> totalPages r
           \<and> isSafeInteger (totalPages r)
           \<and> totalItems props \<le> totalPages r * itemsPerPage_arg props
           \<and> (\<forall>n. 1 \<le> n \<and> totalItems props \<le> n * itemsPerPage_arg props \<longrightarrow> totalPages r \<le> n)"
proof -
  let ?ti = "totalItems props" and ?ipp = "itemsPerPage_arg props"
  let ?tp = "max 1 (Math_ceil_quot ?ti ?ipp)"
  from assms(3) have pos: "0 < ?ipp" and nz: "?ipp \<noteq> 0" by simp_all
  obtain r st where run: "usePagination props cell = Some (r, st)" and tp: "totalPages r = ?tp"
    using usePagination_Some [OF nz, of cell] by simp
  have ceil: "?tp = max 1 \<lceil>real_of_int ?ti / real_of_int ?ipp\<rceil>"
    by (simp add: Math_ceil_quot_def)
  have zero: "?ti = 0 \<longrightarrow> ?tp = 1"
    by simp
  have one: "1 \<le> ?tp"
    by simp
  have "?tp \<le> max 1 ?ti"
    by (rule totalPages_le_totalItems [OF pos]) simp_all
  with one have safe: "isSafeInteger ?tp"
    using assms(2) by (rule isSafeInteger_between)
  have "?ti \<le> Math_ceil_quot ?ti ?ipp * ?ipp"
    by (rule Math_ceil_quot_upper [OF pos])
  also have "\<dots> \<le> ?tp * ?ipp"
    using pos by (intro mult_right_mono) simp_all
  finally have upper: "?ti \<le> ?tp * ?ipp" .
  have least: "?tp \<le> n" if n: "1 \<le> n" "?ti \<le> n * ?ipp" for n
  proof -
    have "(Math_ceil_quot ?ti ?ipp - 1) * ?ipp < n * ?ipp"
      using Math_ceil_quot_lower [OF pos, of ?ti] n(2) by linarith
    with pos have "Math_ceil_quot ?ti ?ipp - 1 < n"
      by (simp add: mult_less_cancel_right)
    with n(1) show ?thesis by simp
  qed
  have "totalPages r = max 1 \<lceil>real_of_int ?ti / real_of_int ?ipp\<rceil>"
    "?ti = 0 \<longrightarrow> totalPages r = 1" "1 \<le> totalPages r" "isSafeInteger (totalPages r)"
    "?ti \<le> totalPages r * ?ipp"
    "\<forall>n. 1 \<le> n \<and> ?ti \<le> n * ?ipp \<longrightarrow> totalPages r \<le> n"
    using ceil zero one safe upper least by (simp_all only: tp) blast
  with run show ?thesis by blast
qed

theorem totalPages_spec_witness:
  "\<exists>r st. usePagination \<lparr>totalItems = 47, itemsPerPage = Some 10, initialPage = Some 1\<rparr> None
            = Some (r, st)
     \<and> totalPages r = 5"
proof -
  let ?props = "\<lparr>totalItems = 47, itemsPerPage = Some 10, initialPage = Some 1\<rparr>"
  have h1: "0 \<le> totalItems ?props" by simp
  have h2: "isSafeInteger (totalItems ?props)"
    by (simp add: isSafeInteger_def MAX_SAFE_INTEGER_def)
  have h3: "1 \<le> itemsPerPage_arg ?props" by (simp add: itemsPerPage_arg_def)
  have h4: "isSafeInteger (itemsPerPage_arg ?props)"
    by (simp add: itemsPerPage_arg_def isSafeInteger_def MAX_SAFE_INTEGER_def)
  from totalPages_spec [OF h1 h2 h3 h4, of None] show ?thesis
    by (auto simp: itemsPerPage_arg_def)
qed

section \<open>Index range of the current page\<close>

text \<open>
  Claim C4. For every \<open>totalItems \<ge> 0\<close> and \<open>itemsPerPage \<ge> 1\<close>, both safe integers,
  and every valid current page, \<open>1 \<le> currentPage \<le> totalPages\<close>, a render returns
  \<open>startIndex = (currentPage - 1) * itemsPerPage\<close> and
  \<open>endIndex = min(startIndex + itemsPerPage, totalItems)\<close>, and these satisfy
  \<open>0 \<le> startIndex \<le> endIndex \<le> totalItems\<close> and \<open>endIndex - startIndex \<le> itemsPerPage\<close>.
  The page and both indices are safe integers. (The sum \<open>startIndex + itemsPerPage\<close> can
  leave the safe range; a double sum beyond \<open>2^53\<close> is rounded to no less than \<open>2^53\<close>,
  which is above \<open>totalItems\<close>, so the minimum is \<open>totalItems\<close> all the same.)
\<close>

theorem page_indices_bounds:
  assumes "0 \<le> totalItems props" and "isSafeInteger (totalItems props)"
    and "1 \<le> itemsPerPage_arg props" and "isSafeInteger (itemsPerPage_arg props)"
  shows "\<exists>r st. usePagination props cell = Some (r, st)
           \<and> (1 \<le> currentPage r \<and> currentPage r \<le> totalPages r \<longrightarrow>
                 startIndex r = (currentPage r - 1) * itemsPerPage_arg props
               \<and> endIndex r = min (startIndex r + itemsPerPage_arg props) (totalItems props)
               \<and> 0 \<le> startIndex r \<and> startIndex r \<le> endIndex r
               \<and> endIndex r \<le> totalItems props
               \<and> endIndex r - startIndex r \<le> itemsPerPage_arg props
               \<and> isSafeInteger (currentPage r)
               \<and> isSafeInteger (startIndex r) \<and> isSafeInteger (endIndex r))"
proof -
  let ?ti = "totalItems props" and ?ipp = "itemsPerPage_arg props"
  from assms(3) have pos: "0 < ?ipp" and nz: "?ipp \<noteq> 0" by simp_all
  obtain r st where run: "usePagination props cell = Some (r, st)"
    and tp: "totalPages r = max 1 (Math_ceil_quot ?ti ?ipp)"
    and si: "startIndex r = (currentPage r - 1) * ?ipp"
    and ei: "endIndex r = min (startIndex r + ?ipp) ?ti"
    by (rule usePagination_fields [OF nz, of cell])
  have bounds: "0 \<le> startIndex r \<and> startIndex r \<le> endIndex r
      \<and> endIndex r \<le> ?ti \<and> endIndex r - startIndex r \<le> ?ipp
      \<and> isSafeInteger (currentPage r)
      \<and> isSafeInteger (startIndex r) \<and> isSafeInteger (endIndex r)"
    if valid: "1 \<le> currentPage r" "currentPage r \<le> totalPages r"
  proof -
    from valid(2) have v: "currentPage r \<le> max 1 (Math_ceil_quot ?ti ?ipp)"
      by (simp only: tp)
    have le: "startIndex r \<le> ?ti"
      unfolding si by (rule start_le_total [OF assms(1) pos valid(1) v])
    from valid(1) pos have ge: "0 \<le> startIndex r"
      unfolding si by simp
    have "max 1 (Math_ceil_quot ?ti ?ipp) \<le> max 1 ?ti"
      by (rule totalPages_le_totalItems [OF pos]) simp_all
    with v have "currentPage r \<le> max 1 ?ti" by simp
    with valid(1) have cs: "isSafeInteger (currentPage r)"
      using assms(2) by (rule isSafeInteger_between)
    from le ge pos have e: "startIndex r \<le> endIndex r" "endIndex r \<le> ?ti"
      "endIndex r - startIndex r \<le> ?ipp"
      by (simp_all add: ei)
    from ge le e assms(2) have "isSafeInteger (startIndex r)" "isSafeInteger (endIndex r)"
      by (simp_all add: isSafeInteger_def MAX_SAFE_INTEGER_def)
    with ge e cs show ?thesis by blast
  qed
  from run si ei bounds show ?thesis
    by blast
qed

theorem page_indices_bounds_witness:
  "\<exists>r st. usePagination \<lparr>totalItems = 47, itemsPerPage = Some 10, initialPage = None\<rparr> (Some 5)
             = Some (r, st)
     \<and> currentPage r = 5 \<and> totalPages r = 5 \<and> startIndex r = 40 \<and> endIndex r = 47"
proof -
  let ?props = "\<lparr>totalItems = 47, itemsPerPage = Some 10, initialPage = None\<rparr>"
  have h1: "0 \<le> totalItems ?props" by simp
  have h2: "isSafeInteger (totalItems ?props)"
    by (simp add: isSafeInteger_def MAX_SAFE_INTEGER_def)
  have h3: "1 \<le> itemsPerPage_arg ?props" by (simp add: itemsPerPage_arg_def)
  have h4: "isSafeInteger (itemsPerPage_arg ?props)"
    by (simp add: itemsPerPage_arg_def isSafeInteger_def MAX_SAFE_INTEGER_def)
  have i: "itemsPerPage_arg ?props = 10" "totalItems ?props = 47"
    by (simp_all add: itemsPerPage_arg_def)
  have tp: "max 1 (Math_ceil_quot 47 10) = 5" by (simp add: Math_ceil_quot_def)
  from page_indices_bounds [OF h1 h2 h3 h4, of "Some 5"] obtain r st
    where a: "usePagination ?props (Some 5) = Some (r, st)"
      and b: "1 \<le> currentPage r \<and> currentPage r \<le> totalPages r \<longrightarrow>
                 startIndex r = (currentPage r - 1) * itemsPerPage_arg ?props
               \<and> endIndex r = min (startIndex r + itemsPerPage_arg ?props) (totalItems ?props)"
    by blast
  from a have c: "currentPage r = 5" "totalPages r = 5"
    by (auto simp: usePagination_def itemsPerPage_arg_def Let_def tp)
  with b have "startIndex r = 40" "endIndex r = 47"
    by (simp_all add: i)
  with a c show ?thesis by blast
qed

section \<open>The initial page\<close>

text \<open>
  With 47 items, 10 per page and \<open>initialPage = 10\<close> the first render reports
  \<open>currentPage = 10\<close> of \<open>totalPages = 5\<close>: the initial page is not bounded above.
\<close>

theorem initial_page_counterexample:
  "usePagination \<lparr>totalItems = 47, itemsPerPage = Some 10, initialPage = Some 10\<rparr> None
     = Some (\<lparr>currentPage = 10, totalPages = 5, startIndex = 90, endIndex = 47,
               itemsOnCurrentPage = - 43, canNextPage = False, canPrevPage = True\<rparr>, 10)
   \<and> \<not> (currentPage \<lparr>currentPage = 10, totalPages = 5, startIndex = 90, endIndex = 47,
               itemsOnCurrentPage = - 43, canNextPage = False, canPrevPage = True\<rparr>
        \<le> totalPages \<lparr>currentPage = 10, totalPages = 5, startIndex = 90, endIndex = 47,
               itemsOnCurrentPage = - 43, canNextPage = False, canPrevPage = True\<rparr>)"
  by (simp add: usePagination_def itemsPerPage_arg_def initialPage_arg_def useState_def
      Math_ceil_quot_def Let_def)

text \<open>
  Claim C1, as amended. At the first render any integer \<open>initialPage\<close> is accepted and the
  initial \<open>currentPage\<close> is \<open>max(1, initialPage)\<close>: it is bounded below by 1 and not
  bounded above. For every \<open>totalItems \<ge> 0\<close> and \<open>itemsPerPage \<ge> 1\<close> the \<open>currentPage\<close>
  observed immediately after construction satisfies \<open>1 \<le> currentPage\<close>, and
  \<open>currentPage \<le> totalPages\<close> holds exactly when \<open>initialPage \<le> totalPages\<close>.
\<close>

theorem initial_page_lower_bound_only:
  assumes "0 \<le> totalItems props" and "1 \<le> itemsPerPage_arg props"
  shows "\<exists>r st. usePagination props None = Some (r, st)
           \<and> currentPage r = max 1 (initialPage_arg props)
           \<and> st = currentPage r
           \<and> 1 \<le> currentPage r
           \<and> (currentPage r \<le> totalPages r \<longleftrightarrow> initialPage_arg props \<le> totalPages r)"
proof -
  from assms(2) have nz: "itemsPerPage_arg props \<noteq> 0" by simp
  obtain r st where run: "usePagination props None = Some (r, st)"
    and cp: "currentPage r = max 1 (initialPage_arg props)"
    and st: "st = max 1 (initialPage_arg props)"
    and tp: "totalPages r = max 1 (Math_ceil_quot (totalItems props) (itemsPerPage_arg props))"
    using usePagination_Some [OF nz, of None] by (simp add: useState_def)
  from tp have "1 \<le> totalPages r" by simp
  with cp have "currentPage r \<le> totalPages r \<longleftrightarrow> initialPage_arg props \<le> totalPages r"
    by simp
  with run cp st show ?thesis
    by (intro exI [of _ r] exI [of _ st]) simp
qed

theorem initial_page_lower_bound_only_witness:
  "\<exists>r st. usePagination \<lparr>totalItems = 47, itemsPerPage = Some 10, initialPage = Some (- 3)\<rparr> None
             = Some (r, st)
     \<and> currentPage r = 1 \<and> st = 1 \<and> currentPage r \<le> totalPages r"
proof -
  let ?props = "\<lparr>totalItems = 47, itemsPerPage = Some 10, initialPage = Some (- 3)\<rparr>"
  have h1: "0 \<le> totalItems ?props" by simp
  have h2: "1 \<le> itemsPerPage_arg ?props" by (simp add: itemsPerPage_arg_def)
  from initial_page_lower_bound_only [OF h1 h2] show ?thesis
    by (auto simp: usePagination_def itemsPerPage_arg_def initialPage_arg_def useState_def
        Math_ceil_quot_def Let_def)
qed

section \<open>Navigation\<close>

text \<open>
  Claim C5. For every integer \<open>p\<close>, after \<open>setPage(p)\<close> the next render reports
  \<open>currentPage = max(1, min(p, totalPages))\<close>, which lies in \<open>[1, totalPages]\<close>; the
  handler is a total function, so no input raises; and \<open>setPage\<close> is idempotent: a second
  call with the same \<open>p\<close>, from the same render or from the next one, leaves the state
  cell and the rendered result as the first call left them.
\<close>

theorem setPage_clamps:
  assumes "1 \<le> itemsPerPage_arg props"
  shows "\<exists>r st r' st'.
           usePagination props cell = Some (r, st)
         \<and> usePagination props (Some (setPage r p st)) = Some (r', st')
         \<and> totalPages r' = totalPages r
         \<and> currentPage r' = max 1 (min p (totalPages r'))
         \<and> st' = currentPage r'
         \<and> 1 \<le> currentPage r' \<and> currentPage r' \<le> totalPages r'
         \<and> setPage r p (setPage r p st) = setPage r p st
         \<and> setPage r' p st' = st'
         \<and> usePagination props (Some (setPage r' p st')) = Some (r', st')"
proof -
  let ?tp = "max 1 (Math_ceil_quot (totalItems props) (itemsPerPage_arg props))"
  from assms have nz: "itemsPerPage_arg props \<noteq> 0" by simp
  obtain r st where run: "usePagination props cell = Some (r, st)"
    and tp: "totalPages r = ?tp"
    by (rule usePagination_fields [OF nz, of cell])
  let ?q = "setPage r p st"
  obtain r' where run': "usePagination props (Some ?q) = Some (r', ?q)"
    and cp': "currentPage r' = ?q"
    and tp': "totalPages r' = ?tp"
    by (rule usePagination_fields [OF nz, of "Some ?q"]) (simp only: useState_Some)
  have q: "?q = max 1 (min p ?tp)"
    by (simp add: setPage_def tp)
  have c1: "totalPages r' = totalPages r"
    by (simp only: tp tp')
  have c2: "currentPage r' = max 1 (min p (totalPages r'))"
    by (simp only: cp' q tp')
  have c3: "?q = currentPage r'"
    by (simp only: cp')
  have c4: "1 \<le> currentPage r'" "currentPage r' \<le> totalPages r'"
    by (simp_all add: cp' q tp')
  have c5: "setPage r p ?q = ?q"
    by (simp add: setPage_def)
  have c6: "setPage r' p ?q = ?q"
    by (simp add: setPage_def c1)
  have c7: "usePagination props (Some (setPage r' p ?q)) = Some (r', ?q)"
    by (simp only: c6 run')
  from run run' c1 c2 c3 c4 c5 c6 c7 show ?thesis
    by blast
qed


theorem setPage_clamps_witness:
  "\<exists>r st r' st'.
      usePagination \<lparr>totalItems = 47, itemsPerPage = None, initialPage = None\<rparr> None = Some (r, st)
    \<and> usePagination \<lparr>totalItems = 47, itemsPerPage = None, initialPage = None\<rparr>
         (Some (setPage r 99 st)) = Some (r', st')
    \<and> currentPage r' = 5 \<and> st' = 5"
proof -
  let ?props = "\<lparr>totalItems = 47, itemsPerPage = None, initialPage = None\<rparr>"
  have h: "1 \<le> itemsPerPage_arg ?props" by (simp add: itemsPerPage_arg_def)
  have tp: "max 1 (Math_ceil_quot 47 10) = 5" by (simp add: Math_ceil_quot_def)
  from setPage_clamps [OF h, of None 99] obtain r st r' st'
    where a: "usePagination ?props None = Some (r, st)"
      and b: "usePagination ?props (Some (setPage r 99 st)) = Some (r', st')"
      and c: "totalPages r' = totalPages r"
      and d: "currentPage r' = max 1 (min 99 (totalPages r'))"
      and e: "st' = currentPage r'"
    by blast
  from a have "totalPages r = 5"
    by (auto simp: usePagination_def itemsPerPage_arg_def Let_def tp)
  with c d e have "currentPage r' = 5" "st' = 5" by simp_all
  with a b show ?thesis by blast
qed

text \<open>
  Claim C9. For \<open>totalItems \<ge> 0\<close> and \<open>itemsPerPage \<ge> 1\<close>, both safe integers:
  \<open>nextPage()\<close> leaves the state cell unchanged when \<open>canNextPage\<close> is false, in
  particular when \<open>currentPage = totalPages\<close>, and otherwise adds exactly 1;
  \<open>prevPage()\<close> leaves it unchanged when \<open>canPrevPage\<close> is false, in particular when
  \<open>currentPage = 1\<close>, and otherwise subtracts exactly 1; the two steps of 1 are stated
  for a state cell that holds a safe integer, and their results are safe integers. The
  state cell is the whole state of the hook. On a valid page,
  \<open>1 \<le> currentPage \<le> totalPages\<close>, the cell is a safe integer and the no-op cases are
  exactly \<open>currentPage = totalPages\<close> and \<open>currentPage = 1\<close>.
\<close>

theorem nextPage_prevPage_steps:
  assumes "0 \<le> totalItems props" and "isSafeInteger (totalItems props)"
    and "1 \<le> itemsPerPage_arg props" and "isSafeInteger (itemsPerPage_arg props)"
  shows "\<exists>r st.
           usePagination props cell = Some (r, st) \<and> st = currentPage r
         \<and> canNextPage r = (currentPage r < totalPages r)
         \<and> canPrevPage r = (1 < currentPage r)
         \<and> (currentPage r = totalPages r \<longrightarrow> \<not> canNextPage r \<and> nextPage r st = st)
         \<and> (currentPage r = 1 \<longrightarrow> \<not> canPrevPage r \<and> prevPage r st = st)
         \<and> (\<not> canNextPage r \<longrightarrow> nextPage r st = st)
         \<and> (\<not> canPrevPage r \<longrightarrow> prevPage r st = st)
         \<and> (isSafeInteger st \<longrightarrow>
               (canNextPage r \<longrightarrow> nextPage r st = st + 1 \<and> isSafeInteger (st + 1))
             \<and> (canPrevPage r \<longrightarrow> prevPage r st = st - 1 \<and> isSafeInteger (st - 1)))
         \<and> (1 \<le> currentPage r \<and> currentPage r \<le> totalPages r \<longrightarrow>
               isSafeInteger st
             \<and> nextPage r st = (if currentPage r = totalPages r then st else st + 1)
             \<and> prevPage r st = (if currentPage r = 1 then st else st - 1))"
proof -
  let ?ti = "totalItems props" and ?ipp = "itemsPerPage_arg props"
  from assms(3) have pos: "0 < ?ipp" and nz: "?ipp \<noteq> 0" by simp_all
  obtain r st where run: "usePagination props cell = Some (r, st)"
    and st: "currentPage r = st"
    and tp: "totalPages r = max 1 (Math_ceil_quot ?ti ?ipp)"
    and cn: "canNextPage r = (currentPage r < totalPages r)"
    and cprev: "canPrevPage r = (1 < currentPage r)"
    by (rule usePagination_fields [OF nz, of cell])
  have "max 1 (Math_ceil_quot ?ti ?ipp) \<le> max 1 ?ti"
    by (rule totalPages_le_totalItems [OF pos]) simp_all
  with assms(2) have tpmax: "totalPages r \<le> MAX_SAFE_INTEGER"
    by (auto simp: tp isSafeInteger_def MAX_SAFE_INTEGER_def)
  have c1: "currentPage r = totalPages r \<longrightarrow> \<not> canNextPage r \<and> nextPage r st = st"
    by (simp add: cn nextPage_def)
  have c2: "currentPage r = 1 \<longrightarrow> \<not> canPrevPage r \<and> prevPage r st = st"
    by (simp add: cprev prevPage_def)
  have c3: "\<not> canNextPage r \<longrightarrow> nextPage r st = st"
    by (simp add: nextPage_def)
  have c4: "\<not> canPrevPage r \<longrightarrow> prevPage r st = st"
    by (simp add: prevPage_def)
  have c5: "isSafeInteger st \<longrightarrow>
               (canNextPage r \<longrightarrow> nextPage r st = st + 1 \<and> isSafeInteger (st + 1))
             \<and> (canPrevPage r \<longrightarrow> prevPage r st = st - 1 \<and> isSafeInteger (st - 1))"
    using tpmax by (auto simp: cn cprev st nextPage_def prevPage_def isSafeInteger_def
        MAX_SAFE_INTEGER_def)
  have c6: "1 \<le> currentPage r \<and> currentPage r \<le> totalPages r \<longrightarrow>
               isSafeInteger st
             \<and> nextPage r st = (if currentPage r = totalPages r then st else st + 1)
             \<and> prevPage r st = (if currentPage r = 1 then st else st - 1)"
    using tpmax by (auto simp: cn cprev st nextPage_def prevPage_def isSafeInteger_def
        MAX_SAFE_INTEGER_def)
  from run st [symmetric] cn cprev c1 c2 c3 c4 c5 c6 show ?thesis
    by blast
qed

theorem nextPage_prevPage_steps_witness:
  "\<exists>r st. usePagination \<lparr>totalItems = 47, itemsPerPage = Some 10, initialPage = Some 5\<rparr> None
             = Some (r, st)
    \<and> currentPage r = 5 \<and> totalPages r = 5 \<and> nextPage r st = 5 \<and> prevPage r st = 4"
proof -
  let ?props = "\<lparr>totalItems = 47, itemsPerPage = Some 10, initialPage = Some 5\<rparr>"
  have h1: "0 \<le> totalItems ?props" by simp
  have h2: "isSafeInteger (totalItems ?props)"
    by (simp add: isSafeInteger_def MAX_SAFE_INTEGER_def)
  have h3: "1 \<le> itemsPerPage_arg ?props" by (simp add: itemsPerPage_arg_def)
  have h4: "isSafeInteger (itemsPerPage_arg ?props)"
    by (simp add: itemsPerPage_arg_def isSafeInteger_def MAX_SAFE_INTEGER_def)
  have tp: "max 1 (Math_ceil_quot 47 10) = 5" by (simp add: Math_ceil_quot_def)
  from nextPage_prevPage_steps [OF h1 h2 h3 h4, of None] obtain r st
    where a: "usePagination ?props None = Some (r, st)"
      and b: "st = currentPage r"
      and c: "1 \<le> currentPage r \<and> currentPage r \<le> totalPages r \<longrightarrow>
               isSafeInteger st
             \<and> nextPage r st = (if currentPage r = totalPages r then st else st + 1)
             \<and> prevPage r st = (if currentPage r = 1 then st else st - 1)"
    by blast
  from a have d: "currentPage r = 5" "totalPages r = 5"
    by (auto simp: usePagination_def itemsPerPage_arg_def initialPage_arg_def Let_def tp)
  with b c have "nextPage r st = 5" "prevPage r st = 4" by simp_all
  with a d show ?thesis by blast
qed

section \<open>Changed inputs\<close>

text \<open>
  Claim C8. When a later render receives other \<open>totalItems\<close> or \<open>itemsPerPage\<close> (the new
  ones \<open>\<ge> 0\<close> and \<open>\<ge> 1\<close>, both safe integers), the state cell and the reported
  \<open>currentPage\<close> are those of the render before: nothing clamps them again, also when
  \<open>currentPage > totalPages\<close> now; \<open>totalPages\<close>, \<open>canNextPage\<close> and \<open>canPrevPage\<close> follow
  their formulas. As long as the unchanged \<open>currentPage\<close> and the product
  \<open>(currentPage - 1) * itemsPerPage\<close> are safe integers, \<open>startIndex\<close>, \<open>endIndex\<close> and
  \<open>itemsOnCurrentPage\<close> follow their formulas too; and when \<open>currentPage > totalPages\<close>,
  \<open>startIndex\<close> is at or beyond \<open>totalItems\<close>, \<open>endIndex = totalItems\<close>, so the range
  \<open>[startIndex, endIndex)\<close> is empty or reversed and slicing a list of \<open>totalItems\<close>
  items by it gives the empty list; \<open>canNextPage\<close> is false and \<open>canPrevPage\<close> is true.
\<close>

theorem no_reclamp_on_rerender:
  assumes "1 \<le> itemsPerPage_arg props"
    and "0 \<le> totalItems props'" and "isSafeInteger (totalItems props')"
    and "1 \<le> itemsPerPage_arg props'" and "isSafeInteger (itemsPerPage_arg props')"
  shows "\<exists>r st r'.
           usePagination props cell = Some (r, st)
         \<and> usePagination props' (Some st) = Some (r', st)
         \<and> currentPage r' = currentPage r
         \<and> totalPages r' = max 1 (Math_ceil_quot (totalItems props') (itemsPerPage_arg props'))
         \<and> canNextPage r' = (currentPage r' < totalPages r')
         \<and> canPrevPage r' = (1 < currentPage r')
         \<and> (isSafeInteger st \<and> isSafeInteger ((st - 1) * itemsPerPage_arg props') \<longrightarrow>
               startIndex r' = (currentPage r' - 1) * itemsPerPage_arg props'
             \<and> endIndex r' = min (startIndex r' + itemsPerPage_arg props') (totalItems props')
             \<and> itemsOnCurrentPage r' = endIndex r' - startIndex r'
             \<and> isSafeInteger (endIndex r') \<and> isSafeInteger (itemsOnCurrentPage r')
             \<and> (totalPages r' < currentPage r' \<longrightarrow>
                   totalItems props' \<le> startIndex r'
                 \<and> endIndex r' = totalItems props'
                 \<and> itemsOnCurrentPage r' \<le> 0
                 \<and> \<not> canNextPage r' \<and> canPrevPage r'
                 \<and> (\<forall>items :: 'a list. int (length items) = totalItems props' \<longrightarrow>
                        slice items (startIndex r') (endIndex r') = [])))"
proof -
  let ?ti = "totalItems props'" and ?ipp = "itemsPerPage_arg props'"
  from assms(1) have nz: "itemsPerPage_arg props \<noteq> 0" by simp
  from assms(4) have pos: "0 < ?ipp" and nz': "?ipp \<noteq> 0" by simp_all
  obtain r st where run: "usePagination props cell = Some (r, st)"
    and cur: "currentPage r = st"
    by (rule usePagination_fields [OF nz, of cell])
  obtain r' where run': "usePagination props' (Some st) = Some (r', st)"
    and cur': "currentPage r' = st"
    and tp: "totalPages r' = max 1 (Math_ceil_quot ?ti ?ipp)"
    and si: "startIndex r' = (currentPage r' - 1) * ?ipp"
    and ei: "endIndex r' = min (startIndex r' + ?ipp) ?ti"
    and ic: "itemsOnCurrentPage r' = endIndex r' - startIndex r'"
    and cn: "canNextPage r' = (currentPage r' < totalPages r')"
    and cprev: "canPrevPage r' = (1 < currentPage r')"
    by (rule usePagination_fields [OF nz', of "Some st"]) (simp only: useState_Some)
  have same: "currentPage r' = currentPage r"
    by (simp only: cur cur')
  have arith: "isSafeInteger (endIndex r') \<and> isSafeInteger (itemsOnCurrentPage r')"
    if safe: "isSafeInteger st" "isSafeInteger ((st - 1) * ?ipp)"
  proof -
    from safe(2) have s: "- MAX_SAFE_INTEGER \<le> startIndex r'" "startIndex r' \<le> MAX_SAFE_INTEGER"
      by (simp_all add: si cur' isSafeInteger_def)
    from assms(2,3) have t: "0 \<le> ?ti" "?ti \<le> MAX_SAFE_INTEGER"
      by (simp_all add: isSafeInteger_def)
    from assms(5) have p: "?ipp \<le> MAX_SAFE_INTEGER"
      by (simp add: isSafeInteger_def)
    have m: "0 < MAX_SAFE_INTEGER" by (simp add: MAX_SAFE_INTEGER_def)
    from s t pos p m have "- MAX_SAFE_INTEGER \<le> endIndex r'" "endIndex r' \<le> MAX_SAFE_INTEGER"
      "- MAX_SAFE_INTEGER \<le> endIndex r' - startIndex r'"
      "endIndex r' - startIndex r' \<le> MAX_SAFE_INTEGER"
      by (simp_all add: ei min_def)
    then show ?thesis
      by (simp add: ic isSafeInteger_def)
  qed
  have beyond: "?ti \<le> startIndex r' \<and> endIndex r' = ?ti \<and> itemsOnCurrentPage r' \<le> 0
      \<and> \<not> canNextPage r' \<and> canPrevPage r'
      \<and> (\<forall>items :: 'a list. int (length items) = ?ti \<longrightarrow>
             slice items (startIndex r') (endIndex r') = [])"
    if over: "totalPages r' < currentPage r'"
  proof -
    from over have o: "max 1 (Math_ceil_quot ?ti ?ipp) < currentPage r'"
      by (simp only: tp)
    have ge: "?ti \<le> startIndex r'"
      unfolding si by (rule start_ge_total [OF pos o])
    with pos have e: "endIndex r' = ?ti"
      by (simp add: ei)
    from ge e have neg: "itemsOnCurrentPage r' \<le> 0"
      by (simp add: ic)
    from over have nonext: "\<not> canNextPage r'"
      by (simp add: cn)
    from o have prev: "canPrevPage r'"
      by (simp add: cprev)
    have sl: "slice items (startIndex r') (endIndex r') = []"
      if "int (length items) = ?ti" for items :: "'a list"
      using that ge e by (intro slice_beyond_end) simp_all
    from ge e neg nonext prev sl show ?thesis
      by blast
  qed
  from run run' same tp si ei ic cn cprev arith beyond show ?thesis
    by blast
qed

theorem no_reclamp_on_rerender_witness:
  "\<exists>r st r'.
      usePagination \<lparr>totalItems = 47, itemsPerPage = Some 10, initialPage = Some 3\<rparr> None
        = Some (r, st)
    \<and> usePagination \<lparr>totalItems = 5, itemsPerPage = Some 10, initialPage = Some 3\<rparr> (Some st)
        = Some (r', st)
    \<and> currentPage r = 3 \<and> currentPage r' = 3 \<and> totalPages r' = 1
    \<and> startIndex r' = 20 \<and> endIndex r' = 5 \<and> itemsOnCurrentPage r' = - 15
    \<and> slice ''abcde'' (startIndex r') (endIndex r') = []"
proof -
  let ?props = "\<lparr>totalItems = 47, itemsPerPage = Some 10, initialPage = Some 3\<rparr>"
  let ?props' = "\<lparr>totalItems = 5, itemsPerPage = Some 10, initialPage = Some 3\<rparr>"
  have h1: "1 \<le> itemsPerPage_arg ?props" by (simp add: itemsPerPage_arg_def)
  have h2: "0 \<le> totalItems ?props'" by simp
  have h3: "isSafeInteger (totalItems ?props')"
    by (simp add: isSafeInteger_def MAX_SAFE_INTEGER_def)
  have h4: "1 \<le> itemsPerPage_arg ?props'" by (simp add: itemsPerPage_arg_def)
  have h5: "isSafeInteger (itemsPerPage_arg ?props')"
    by (simp add: itemsPerPage_arg_def isSafeInteger_def MAX_SAFE_INTEGER_def)
  have i: "itemsPerPage_arg ?props' = 10" "totalItems ?props' = 5"
    by (simp_all add: itemsPerPage_arg_def)
  have tp: "max 1 (Math_ceil_quot 5 10) = 1" by (simp add: Math_ceil_quot_def)
  from no_reclamp_on_rerender [OF h1 h2 h3 h4 h5, of None, where ?'a = char] obtain r st r'
    where a: "usePagination ?props None = Some (r, st)"
      and b: "usePagination ?props' (Some st) = Some (r', st)"
      and c: "currentPage r' = currentPage r"
      and d: "totalPages r' = max 1 (Math_ceil_quot (totalItems ?props') (itemsPerPage_arg ?props'))"
      and h: "isSafeInteger st \<and> isSafeInteger ((st - 1) * itemsPerPage_arg ?props') \<longrightarrow>
               startIndex r' = (currentPage r' - 1) * itemsPerPage_arg ?props'
             \<and> endIndex r' = min (startIndex r' + itemsPerPage_arg ?props') (totalItems ?props')
             \<and> itemsOnCurrentPage r' = endIndex r' - startIndex r'
             \<and> isSafeInteger (endIndex r') \<and> isSafeInteger (itemsOnCurrentPage r')
             \<and> (totalPages r' < currentPage r' \<longrightarrow>
                   totalItems ?props' \<le> startIndex r'
                 \<and> endIndex r' = totalItems ?props'
                 \<and> itemsOnCurrentPage r' \<le> 0
                 \<and> \<not> canNextPage r' \<and> canPrevPage r'
                 \<and> (\<forall>items :: char list. int (length items) = totalItems ?props' \<longrightarrow>
                        slice items (startIndex r') (endIndex r') = []))"
    by blast
  from a have cp: "currentPage r = 3" and st: "st = 3"
    by (auto simp: usePagination_def itemsPerPage_arg_def initialPage_arg_def Let_def)
  have safe: "isSafeInteger st \<and> isSafeInteger ((st - 1) * itemsPerPage_arg ?props')"
    by (simp add: st i isSafeInteger_def MAX_SAFE_INTEGER_def)
  from d have tp': "totalPages r' = 1"
    by (simp only: i tp)
  from c cp have cp': "currentPage r' = 3" by simp
  from h safe have e: "startIndex r' = (currentPage r' - 1) * itemsPerPage_arg ?props'"
    and f: "endIndex r' = min (startIndex r' + itemsPerPage_arg ?props') (totalItems ?props')"
    and g: "itemsOnCurrentPage r' = endIndex r' - startIndex r'"
    and k: "totalPages r' < currentPage r' \<longrightarrow>
              (\<forall>items :: char list. int (length items) = totalItems ?props' \<longrightarrow>
                        slice items (startIndex r') (endIndex r') = [])"
    by blast+
  from e cp' have si: "startIndex r' = 20" by (simp add: i)
  from f si have ei: "endIndex r' = 5" by (simp add: i)
  from g si ei have ic: "itemsOnCurrentPage r' = - 15" by simp
  from tp' cp' have "totalPages r' < currentPage r'" by simp
  with k have "\<forall>items :: char list. int (length items) = totalItems ?props' \<longrightarrow>
                    slice items (startIndex r') (endIndex r') = []"
    by blast
  then have "slice ''abcde'' (startIndex r') (endIndex r') = []"
    by (simp add: i)
  with a b cp cp' tp' si ei ic show ?thesis by blast
qed

section \<open>The first render of useDebounce\<close>

text \<open>
  Claim C10. On the first invocation of \<open>useDebounce\<close> (in a reachable world where no
  instance is mounted) the hook returns, synchronously, the input value of that
  invocation: the state cell is initialised to it. No callback has run and no time has
  passed. However much time passes afterwards, before or after the delay, a render
  would still return that value.
\<close>

theorem first_render_returns_input:
  assumes "w = run evs init" and "inst w = None"
  shows "fst (useDebounce v d w) = v
    \<and> current (snd (useDebounce v d w)) = Some v
    \<and> fired (snd (useDebounce v d w)) = fired w
    \<and> now (snd (useDebounce v d w)) = now w
    \<and> (\<forall>w' \<in> set (trace (map Advance ns) (snd (useDebounce v d w))). current w' = Some v)"
proof -
  let ?w1 = "snd (useDebounce v d w)"
  let ?t = "\<lparr>timer_id = next_id w, due = now w + nat (delay_arg d), callback_value = v\<rparr>"
  have "world_ok w" unfolding assms(1) by (rule world_ok_reachable)
  with assms(2) have idle: "timers w = []"
    by (auto simp: world_ok_def owned_iff)
  have first: "fst (useDebounce v d w) = v" "current ?w1 = Some v"
    "fired ?w1 = fired w" "now ?w1 = now w"
    by (simp_all add: useDebounce_mount [OF assms(2)] current_def)
  have t: "timers ?w1 = [?t]"
    by (simp add: useDebounce_mount [OF assms(2)] idle)
  have later: "current w' = Some v" if "w' \<in> set (trace (map Advance ns) ?w1)" for w'
  proof -
    from armed_wait_trace [OF t that]
    have "inst w' = inst ?w1
        \<or> inst w' = map_option (\<lambda>f. f\<lparr>debouncedValue := v\<rparr>) (inst ?w1)"
      by auto
    then show ?thesis
      using first(2) by (auto simp: current_def)
  qed
  from first later show ?thesis by blast
qed

theorem first_render_returns_input_witness:
  "fst (useDebounce ''abc'' (Some 300) init) = ''abc''"
proof -
  have "(init :: string world) = run [] init" by simp
  moreover have "inst (init :: string world) = None" by (simp add: init_def)
  ultimately show ?thesis
    using first_render_returns_input [of init "[]" "''abc''" "Some 300" "[]"] by blast
qed

section \<open>One pending timer\<close>

text \<open>
  Claim C6. In every world reachable from the initial one at most one timer is pending.
  On every render in which \<open>value\<close> or \<open>delay\<close> differs from the last effect run, the
  cleanup of that run leaves no timer pending before the new one is scheduled; the
  timers that were pending are recorded as cleared, and afterwards the new timer, with
  a fresh handle, is the only one pending.
\<close>

theorem at_most_one_pending_timer:
  assumes "w = run evs init"
  shows "length (timers w) \<le> 1
    \<and> (\<forall>f v d. inst w = Some f \<and> deps f \<noteq> (v, delay_arg d) \<longrightarrow>
          timers (cleanup (handler f) w) = []
        \<and> pending_ids w \<subseteq> set (cleared (step (Render v d) w))
        \<and> next_id w \<notin> pending_ids w
        \<and> timers (step (Render v d) w)
            = [\<lparr>timer_id = next_id w, due = now w + nat (delay_arg d), callback_value = v\<rparr>])"
proof -
  have world_ok: "world_ok w" unfolding assms by (rule world_ok_reachable)
  then have own: "owned w" and ids: "ids_ok w" by (simp_all add: world_ok_def)
  from own have len: "length (timers w) \<le> 1"
    by (auto simp: owned_iff)
  have change: "timers (cleanup (handler f) w) = []
        \<and> pending_ids w \<subseteq> set (cleared (step (Render v d) w))
        \<and> next_id w \<notin> pending_ids w
        \<and> timers (step (Render v d) w)
            = [\<lparr>timer_id = next_id w, due = now w + nat (delay_arg d), callback_value = v\<rparr>]"
    if f: "inst w = Some f" and ch: "deps f \<noteq> (v, delay_arg d)" for f v d
  proof -
    from own f have gone: "filter (\<lambda>t. timer_id t \<noteq> handler f) (timers w) = []"
      by (auto simp: owned_iff)
    from own f have sub: "pending_ids w \<subseteq> set (filter (\<lambda>i. i = handler f) (map timer_id (timers w)))"
      by (auto simp: owned_iff pending_ids_def)
    from ids have fresh: "next_id w \<notin> pending_ids w"
      by (auto simp: ids_ok_def)
    from gone sub fresh show ?thesis
      by (auto simp: useDebounce_change [OF f ch] cleanup_def clearTimeout_def)
  qed
  from len change show ?thesis by blast
qed

theorem at_most_one_pending_timer_witness:
  "length (timers (run [Render ''a'' None, Advance 100] (init :: string world))) \<le> 1
   \<and> timers (step (Render ''ab'' None) (run [Render ''a'' None, Advance 100] (init :: string world)))
       = [\<lparr>timer_id = 2, due = 600, callback_value = ''ab''\<rparr>]"
proof -
  let ?w = "run [Render ''a'' None, Advance 100] (init :: string world)"
  let ?f = "\<lparr>debouncedValue = ''a'', deps = (''a'', 500), handler = 1\<rparr>"
  have w: "?w = \<lparr>now = 100, next_id = 2,
                 timers = [\<lparr>timer_id = 1, due = 500, callback_value = ''a''\<rparr>],
                 inst = Some ?f, fired = [], cleared = []\<rparr>"
    by (simp add: run_def init_def useDebounce_def effect_def setTimeout_def
        advance_def due_timers_def delay_arg_def Let_def)
  have f: "inst ?w = Some ?f" by (simp only: w) simp
  have ch: "deps ?f \<noteq> (''ab'', delay_arg None)" by simp
  have n: "next_id ?w = 2" "now ?w = 100" by (simp_all only: w) simp_all
  from at_most_one_pending_timer [OF refl, of "[Render ''a'' None, Advance 100]"] f ch
  have "length (timers ?w) \<le> 1"
    and "timers (step (Render ''ab'' None) ?w)
       = [\<lparr>timer_id = next_id ?w, due = now ?w + nat (delay_arg None), callback_value = ''ab''\<rparr>]"
    by blast+
  then show ?thesis
    by (simp only: n delay_arg_def) simp
qed

section \<open>Unmounting\<close>

text \<open>
  Claim C7. Unmounting in any reachable world cancels whatever callback is pending: no
  timer remains, the pending handles are recorded as cleared, and however much time
  passes afterwards no callback runs and nothing is written. More generally a callback
  that was pending at the unmount never runs in any continuation, and in every
  reachable world no handle is both cleared and run.
\<close>

theorem unmount_cancels_pending:
  assumes "w = run evs init"
  shows "timers (step Unmount w) = [] \<and> inst (step Unmount w) = None
    \<and> fired (step Unmount w) = fired w
    \<and> pending_ids w \<subseteq> set (cleared (step Unmount w))
    \<and> (\<forall>w' \<in> set (trace (map Advance ns) (step Unmount w)). fired w' = fired w \<and> inst w' = None)
    \<and> pending_ids w \<inter> fired_ids (run evs' (step Unmount w)) = {}
    \<and> set (cleared w) \<inter> fired_ids w = {}"
proof -
  have world_ok: "world_ok w" unfolding assms by (rule world_ok_reachable)
  then have own: "owned w" and ids: "ids_ok w" by (simp_all add: world_ok_def)
  note u = unmount_owned [OF own]
  have quiet: "fired w' = fired w \<and> inst w' = None"
    if "w' \<in> set (trace (map Advance ns) (step Unmount w))" for w'
    using idle_wait [OF u(1), of w' ns] that u(2,3) by simp
  let ?w' = "run evs' (step Unmount w)"
  have "?w' = run (evs @ Unmount # evs') init"
    by (simp add: assms)
  then have "world_ok ?w'" by (simp only: world_ok_reachable)
  then have "set (cleared ?w') \<inter> fired_ids ?w' = {}"
    by (simp add: world_ok_def ids_ok_def)
  moreover have "pending_ids w \<subseteq> set (cleared ?w')"
    using u(4) cleared_run [of "unmount w" evs'] by simp
  ultimately have never: "pending_ids w \<inter> fired_ids ?w' = {}"
    by blast
  from ids have disj: "set (cleared w) \<inter> fired_ids w = {}"
    by (simp add: ids_ok_def)
  from u quiet never disj show ?thesis
    by simp
qed

theorem unmount_cancels_pending_witness:
  "timers (run [Render ''a'' None, Advance 100] (init :: string world))
     = [\<lparr>timer_id = 1, due = 500, callback_value = ''a''\<rparr>]
   \<and> timers (step Unmount (run [Render ''a'' None, Advance 100] (init :: string world))) = []
   \<and> fired (run (map Advance [400, 1000])
              (step Unmount (run [Render ''a'' None, Advance 100] (init :: string world)))) = []"
proof -
  let ?w = "run [Render ''a'' None, Advance 100] (init :: string world)"
  have w: "?w = \<lparr>now = 100, next_id = 2,
                 timers = [\<lparr>timer_id = 1, due = 500, callback_value = ''a''\<rparr>],
                 inst = Some \<lparr>debouncedValue = ''a'', deps = (''a'', 500), handler = 1\<rparr>,
                 fired = [], cleared = []\<rparr>"
    by (simp add: run_def init_def useDebounce_def effect_def setTimeout_def
        advance_def due_timers_def delay_arg_def Let_def)
  have t: "timers ?w = [\<lparr>timer_id = 1, due = 500, callback_value = ''a''\<rparr>]" "fired ?w = []"
    by (simp_all only: w) simp_all
  from unmount_cancels_pending [OF refl, of "[Render ''a'' None, Advance 100]" "[400, 1000]"]
  have a: "timers (step Unmount ?w) = []"
    and b: "\<forall>w' \<in> set (trace (map Advance [400, 1000]) (step Unmount ?w)). fired w' = fired ?w \<and> inst w' = None"
    by blast+
  from b trace_end [of "map Advance [400, 1000]" "step Unmount ?w"]
  have "fired (run (map Advance [400, 1000]) (step Unmount ?w)) = fired ?w"
    by blast
  with a t show ?thesis by simp
qed

section \<open>A burst of changes\<close>

text \<open>
  Claim C2. Take any reachable world, a first change \<open>v0\<close> (a mount, or a render whose
  \<open>value\<close> or \<open>delay\<close> differs from the last effect run), and then further changes, each
  to a value different from the one before and each less than \<open>delay\<close> after the one
  before; then let time pass in any number of stretches \<open>ns\<close>. Some handle \<open>h\<close> exists
  such that in every world passed through after the first change, either no callback
  has run since the start and the hook still returns what it returned at the first
  change, or exactly one callback has run, the one carrying the last value of the
  burst, at \<open>delay\<close> after the last change, and the hook returns that value. At the end
  that callback has run exactly once if the stretches add up to at least \<open>delay\<close>, and
  not at all otherwise.
\<close>

theorem burst_settles_last_value_once:
  assumes "w0 = run pre init"
    and "\<forall>f. inst w0 = Some f \<longrightarrow> deps f \<noteq> (v0, delay_arg d)"
    and "\<forall>c \<in> set cs. fst c < nat (delay_arg d)"
    and "distinct_adj (v0 # map snd cs)"
  shows "\<exists>h.
      (\<forall>w \<in> set (trace (burst d cs @ map Advance ns) (step (Render v0 d) w0)).
          (fired w = fired w0 \<and> current w = Some (fst (useDebounce v0 d w0)))
        \<or> (fired w = fired w0 @ [(now w0 + sum_list (map fst cs) + nat (delay_arg d), h,
                                    last (v0 # map snd cs))]
            \<and> current w = Some (last (v0 # map snd cs))
            \<and> now w0 + sum_list (map fst cs) + nat (delay_arg d) \<le> now w))
    \<and> fired (run (Render v0 d # burst d cs @ map Advance ns) w0)
        = fired w0 @ (if ns \<noteq> [] \<and> nat (delay_arg d) \<le> sum_list ns
                      then [(now w0 + sum_list (map fst cs) + nat (delay_arg d), h,
                             last (v0 # map snd cs))]
                      else [])"
proof -
  let ?D = "delay_arg d"
  let ?dv = "fst (useDebounce v0 d w0)"
  let ?vl = "last (v0 # map snd cs)"
  let ?w1 = "step (Render v0 d) w0"
  let ?w2 = "run (burst d cs) ?w1"
  let ?T = "now w0 + sum_list (map fst cs) + nat ?D"
  have wf0: "world_ok w0" unfolding assms(1) by (rule world_ok_reachable)
  note first = armed_first_render [OF wf0 assms(2)]
  from armed_burst [OF first(1) refl assms(3,4)]
  have a2: "armed ?vl ?D ?dv ?w2"
    and f2': "fired ?w2 = fired ?w1"
    and n2': "now ?w2 = now ?w1 + sum_list (map fst cs)"
    and quiet': "\<forall>w \<in> set (trace (burst d cs) ?w1). fired w = fired ?w1 \<and> current w = Some ?dv"
    by blast+
  have f2: "fired ?w2 = fired w0"
    by (rule trans [OF f2' first(2)])
  have n2: "now ?w2 = now w0 + sum_list (map fst cs)"
    using n2' by (simp only: first(3))
  have quiet: "\<forall>w \<in> set (trace (burst d cs) ?w1). fired w = fired w0 \<and> current w = Some ?dv"
    using quiet' by (simp only: first(2))
  from a2 obtain h f where t: "timers ?w2 = [\<lparr>timer_id = h, due = ?T, callback_value = ?vl\<rparr>]"
    and f: "inst ?w2 = Some f" and dv: "debouncedValue f = ?dv"
    unfolding armed_iff n2 by blast
  let ?t = "\<lparr>timer_id = h, due = ?T, callback_value = ?vl\<rparr>"
  have later: "(fired w = fired w0 \<and> current w = Some ?dv)
        \<or> (fired w = fired w0 @ [(?T, h, ?vl)] \<and> current w = Some ?vl \<and> ?T \<le> now w)"
    if "w \<in> set (trace (map Advance ns) ?w2)" for w
  proof -
    from armed_wait_trace [OF t that]
    have "(fired w = fired ?w2 \<and> inst w = inst ?w2)
         \<or> (fired w = fired ?w2 @ [(?T, h, ?vl)]
            \<and> inst w = map_option (\<lambda>f. f\<lparr>debouncedValue := ?vl\<rparr>) (inst ?w2)
            \<and> ?T \<le> now w)"
      by (simp del: step.simps)
    then show ?thesis
      by (auto simp: f2 f dv current_def simp del: step.simps)
  qed
  have all: "(fired w = fired w0 \<and> current w = Some ?dv)
        \<or> (fired w = fired w0 @ [(?T, h, ?vl)] \<and> current w = Some ?vl \<and> ?T \<le> now w)"
    if "w \<in> set (trace (burst d cs @ map Advance ns) ?w1)" for w
  proof -
    from that have "w \<in> set (trace (burst d cs) ?w1) \<or> w \<in> set (trace (map Advance ns) ?w2)"
      by (simp only: trace_append Un_iff)
    then show ?thesis
    proof
      assume "w \<in> set (trace (burst d cs) ?w1)"
      with quiet show ?thesis by blast
    next
      assume "w \<in> set (trace (map Advance ns) ?w2)"
      then show ?thesis by (rule later)
    qed
  qed
  have "fired (run (map Advance ns) ?w2) =
          fired ?w2 @ (if ns \<noteq> [] \<and> due ?t \<le> now ?w2 + sum_list ns
                      then [(due ?t, timer_id ?t, callback_value ?t)] else [])"
    by (rule armed_wait_run [OF t])
  then have final: "fired (run (Render v0 d # burst d cs @ map Advance ns) w0)
        = fired w0 @ (if ns \<noteq> [] \<and> nat ?D \<le> sum_list ns then [(?T, h, ?vl)] else [])"
    by (simp add: f2 n2 del: step.simps)
  from all final show ?thesis by blast
qed

theorem burst_settles_last_value_once_witness:
  "\<exists>h. fired (run (Render ''a'' None # burst None [(100, ''ab''), (200, ''abc'')]
                      @ map Advance [300, 200]) (init :: string world))
     = [(800, h, ''abc'')]"
proof -
  let ?cs = "[(100 :: nat, ''ab''), (200, ''abc'')]"
  let ?ns = "[300, 200 :: nat]"
  let ?w0 = "init :: string world"
  have h1: "?w0 = run [] init" by simp
  have h2: "\<forall>f. inst ?w0 = Some f \<longrightarrow> deps f \<noteq> (''a'', delay_arg None)"
    by (simp add: init_def)
  have h3: "\<forall>c \<in> set ?cs. fst c < nat (delay_arg None)"
    by (simp add: delay_arg_def)
  have h4: "distinct_adj (''a'' # map snd ?cs)"
    by simp
  have e: "fired ?w0 @ (if ?ns \<noteq> [] \<and> nat (delay_arg None) \<le> sum_list ?ns
                      then [(now ?w0 + sum_list (map fst ?cs) + nat (delay_arg None), h,
                             last (''a'' # map snd ?cs))]
                      else []) = [(800, h, ''abc'')]" for h :: nat
    by (simp add: init_def delay_arg_def)
  from burst_settles_last_value_once [OF h1 h2 h3 h4, of ?ns]
  have "\<exists>h. fired (run (Render ''a'' None # burst None ?cs @ map Advance ?ns) ?w0)
        = fired ?w0 @ (if ?ns \<noteq> [] \<and> nat (delay_arg None) \<le> sum_list ?ns
                      then [(now ?w0 + sum_list (map fst ?cs) + nat (delay_arg None), h,
                             last (''a'' # map snd ?cs))]
                      else [])"
    by (elim exE conjE) (rule exI)
  then show ?thesis
    by (simp only: e)
qed

end
